theory Spec2Isabelle
  imports Complex_Main
begin

section \<open>Exact integer linear systems: the \<open>System\<close> class of \<open>maths/reduce.py\<close>\<close>

text \<open>
  The module is Python 2: integers are unbounded (\<^typ>\<open>int\<close>) and \<open>/\<close> on integers is
  floor division (\<open>div\<close> on \<^typ>\<open>int\<close>).  Tuples and lists of integers are \<^typ>\<open>int list\<close>.
  Every \<open>raise\<close>, failing \<open>assert\<close> and out-of-range subscript is a value \<open>Inl e\<close>.
\<close>

subsection \<open>Errors\<close>

datatype error =
    OverLongRow "int list"          \<comment> \<open>\<open>ValueError('over-long row', row)\<close>\<close>
  | ZeroDenominator "int list"      \<comment> \<open>\<open>ValueError('zero denominator on row', row)\<close>\<close>
  | TooManyEntries "int list" nat   \<comment> \<open>\<open>ValueError('too many entries', row, n)\<close>\<close>
  | IrreducibleComposites "nat list" \<comment> \<open>\<open>ValueError('Irreducible composites', co)\<close>\<close>
  | EmptyMax                        \<comment> \<open>\<open>ValueError\<close> of \<open>max\<close> on an empty sequence\<close>
  | IndexError
  | ZeroDivisionError
  | AssertionError

definition nth_e :: "'a list \<Rightarrow> nat \<Rightarrow> error + 'a" where
  \<comment> \<open>\<open>xs[i]\<close> for a non-negative index\<close>
  "nth_e xs i = (if i < length xs then Inr (xs ! i) else Inl IndexError)"

definition last_e :: "'a list \<Rightarrow> error + 'a" where
  \<comment> \<open>\<open>xs[-1]\<close>\<close>
  "last_e xs = (if xs = [] then Inl IndexError else Inr (last xs))"

definition any_nz :: "int list \<Rightarrow> bool" where
  \<comment> \<open>Python's \<open>any(row)\<close> on integers\<close>
  "any_nz row = (\<exists>x \<in> set row. x \<noteq> 0)"

subsection \<open>The helpers of \<open>natural\<close> and \<open>permute\<close>\<close>

definition hcf :: "int list \<Rightarrow> int" where
  \<comment> \<open>Modelled from the spec: \<open>natural.hcf\<close> is imported from a module that is not among the
      sources; the spec calls it the exact greatest common divisor of all the entries, and the
      callers negate it themselves to get a sign, so it is non-negative (0 for all-zero input).\<close>
  "hcf xs = foldr gcd xs 0"

definition gcd2 :: "int \<Rightarrow> int \<Rightarrow> int" where
  \<comment> \<open>Modelled from the spec: \<open>natural.gcd\<close>, the two-argument exact greatest common divisor.\<close>
  "gcd2 a b = gcd a b"

definition lcm_list :: "int list \<Rightarrow> int" where
  \<comment> \<open>Modelled from the spec: \<open>natural.lcm\<close>, the least common multiple of the denominators
      (``denominator-LCM combination''), non-negative.\<close>
  "lcm_list xs = foldr lcm xs 1"

definition order :: "nat list \<Rightarrow> nat list" where
  \<comment> \<open>Modelled from the spec: \<open>permute.order\<close>, the permutation that sorts its argument
      ascending (``sorted by the count of leading zero entries''); ties keep their order.\<close>
  "order xs = sort_key (\<lambda>i. xs ! i) [0..<length xs]"

definition permute :: "'a list \<Rightarrow> nat list \<Rightarrow> 'a list" where
  \<comment> \<open>Modelled from the spec: \<open>permute.permute(seq, perm)\<close>, the sequence read through the
      permutation (``matching reorder of the Result rows'').\<close>
  "permute xs perm = map (\<lambda>i. xs ! i) perm"

subsection \<open>Ingestion\<close>

definition divide_all :: "int \<Rightarrow> int list \<Rightarrow> int list" where
  \<comment> \<open>\<open>i = len(r); while i > 0: i -= 1; r[i] /= f\<close>\<close>
  "divide_all f r = map (\<lambda>x. x div f) r"

definition pad :: "nat \<Rightarrow> int list \<Rightarrow> int list" where
  \<comment> \<open>\<open>while len(r) < n: r.append(0)\<close>\<close>
  "pad n r = r @ replicate (n - length r) 0"

definition ingest_row :: "nat \<Rightarrow> int list \<Rightarrow> error + int list" where
  "ingest_row n row =
     (if length row > 1 + n then Inl (OverLongRow row)
      else let r = pad n row in
        if length r = n then Inr (r @ [1])
        else if r ! n = 0 then Inl (ZeroDenominator row)
        else let f = hcf r;
                 f = (if r ! n < 0 then - f else f)
             in Inr (if f > 1 \<or> f < 0 then divide_all f r else r))"

fun ingest :: "nat \<Rightarrow> int list list \<Rightarrow> error + int list list" where
  "ingest n [] = Inr []"
| "ingest n (row # rows) =
     (case ingest_row n row of
        Inl e \<Rightarrow> Inl e
      | Inr r \<Rightarrow> (case ingest n rows of Inl e \<Rightarrow> Inl e | Inr ans \<Rightarrow> Inr (r # ans)))"

record system =
  dim :: nat                 \<comment> \<open>\<open>self.__ca[0]\<close>\<close>
  ava :: nat                 \<comment> \<open>\<open>self.__ca[1]\<close>\<close>
  problem :: "int list list"

definition System :: "nat \<Rightarrow> int list list \<Rightarrow> error + system" where
  \<comment> \<open>\<open>__init__\<close>\<close>
  "System n rows =
     (case ingest n rows of
        Inl e \<Rightarrow> Inl e
      | Inr p \<Rightarrow> Inr \<lparr>dim = n, ava = length rows, problem = p\<rparr>)"

subsection \<open>Sequencing of fallible steps\<close>

definition ebind :: "error + 'a \<Rightarrow> ('a \<Rightarrow> error + 'b) \<Rightarrow> error + 'b" where
  \<comment> \<open>run the first step; an exception ends the computation\<close>
  "ebind m f = (case m of Inl e \<Rightarrow> Inl e | Inr x \<Rightarrow> f x)"

fun map_e :: "('a \<Rightarrow> error + 'b) \<Rightarrow> 'a list \<Rightarrow> error + 'b list" where
  "map_e f [] = Inr []"
| "map_e f (x # xs) =
     (case f x of
        Inl e \<Rightarrow> Inl e
      | Inr y \<Rightarrow> (case map_e f xs of Inl e \<Rightarrow> Inl e | Inr ys \<Rightarrow> Inr (y # ys)))"

subsection \<open>The working state of the reduction\<close>

record work =
  matrix :: "int list list"    \<comment> \<open>\<open>self.__matrix\<close>\<close>
  result :: "int list list"    \<comment> \<open>\<open>self.__result\<close>\<close>
  column :: "nat list"         \<comment> \<open>\<open>self.__column\<close>\<close>

definition scaling :: "int list \<Rightarrow> int list list" where
  "scaling row = map (\<lambda>i. (replicate (length row) 0)[i := row ! i]) [0..<length row]"

definition setup_work :: "system \<Rightarrow> error + work" where
  \<comment> \<open>\<open>__setup\<close>\<close>
  "setup_work s =
     ebind (map_e last_e (problem s)) (\<lambda>dens.
       Inr \<lparr>matrix = map butlast (problem s),
            result = scaling dens,
            column = [0..<dim s]\<rparr>)"

definition entry :: "work \<Rightarrow> nat \<Rightarrow> nat \<Rightarrow> error + int" where
  \<comment> \<open>\<open>self.__matrix[i][self.__column[j]]\<close>\<close>
  "entry w i j =
     ebind (nth_e (matrix w) i) (\<lambda>row.
     ebind (nth_e (column w) j) (\<lambda>c. nth_e row c))"

subsection \<open>Row operations\<close>

definition swap_seq :: "nat \<Rightarrow> nat \<Rightarrow> 'a list \<Rightarrow> error + 'a list" where
  \<comment> \<open>\<open>seq[i], seq[j] = seq[j], seq[i]\<close>\<close>
  "swap_seq i j seq =
     (if i < length seq \<and> j < length seq then Inr (seq[i := seq ! j, j := seq ! i])
      else Inl IndexError)"

definition swap :: "nat \<Rightarrow> nat \<Rightarrow> work \<Rightarrow> error + work" where
  "swap i j w =
     ebind (swap_seq i j (matrix w)) (\<lambda>m.
     ebind (swap_seq i j (result w)) (\<lambda>r. Inr (w\<lparr>matrix := m, result := r\<rparr>)))"

definition combine :: "int \<Rightarrow> int \<Rightarrow> int list \<Rightarrow> int list \<Rightarrow> error + int list" where
  \<comment> \<open>\<open>k = len(row); while k > 0: k -= 1; row[k] = row[k] * nj - top[k] * ni\<close>\<close>
  "combine ni nj top_row row =
     (if length row \<le> length top_row then Inr (map2 (\<lambda>r t. r * nj - t * ni) row top_row)
      else Inl IndexError)"

fun divide_pair :: "nat \<Rightarrow> int \<Rightarrow> int list \<Rightarrow> int list \<Rightarrow> error + int list \<times> int list" where
  \<comment> \<open>\<open>while k > 0: k -= 1; row[k] /= f; mat[k] /= f\<close>\<close>
  "divide_pair 0 f mat row = Inr (mat, row)"
| "divide_pair (Suc k) f mat row =
     (if k < length row then
        (if k < length mat
         then divide_pair k f (mat[k := mat ! k div f]) (row[k := row ! k div f])
         else Inl IndexError)
      else Inl IndexError)"

definition take_row :: "nat \<Rightarrow> int \<Rightarrow> nat \<Rightarrow> int \<Rightarrow> work \<Rightarrow> error + work" where
  \<comment> \<open>\<open>__take(i, ni, j, nj)\<close>; the final loop runs \<open>k\<close> from the length of the result row\<close>
  "take_row i ni j nj w =
     ebind (nth_e (matrix w) i) (\<lambda>mtop.
     ebind (nth_e (matrix w) j) (\<lambda>mrow.
     ebind (combine ni nj mtop mrow) (\<lambda>mrow.
     ebind (nth_e (result w) i) (\<lambda>rtop.
     ebind (nth_e (result w) j) (\<lambda>rrow.
     ebind (combine ni nj rtop rrow) (\<lambda>rrow.
       let f = hcf (mrow @ rrow);
           r = filter (\<lambda>x. x \<noteq> 0) mrow;
           f = (if r \<noteq> [] \<and> hd r < 0 then - f else f)
       in if f > 1 \<or> f < 0 then
            ebind (divide_pair (length rrow) f mrow rrow) (\<lambda>(mat, row).
              Inr (w\<lparr>matrix := (matrix w)[j := mat], result := (result w)[j := row]\<rparr>))
          else Inr (w\<lparr>matrix := (matrix w)[j := mrow], result := (result w)[j := rrow]\<rparr>)))))))"

subsection \<open>Pivot selection\<close>

definition peak :: "int list \<Rightarrow> error + int" where
  \<comment> \<open>\<open>max(abs(r) for r in rs)\<close>\<close>
  "peak rs = (case rs of [] \<Rightarrow> Inl EmptyMax | r # rs' \<Rightarrow> Inr (foldl max \<bar>r\<bar> (map abs rs')))"

function select_row :: "work \<Rightarrow> nat \<Rightarrow> nat \<Rightarrow> nat \<Rightarrow> int \<Rightarrow> error + nat \<times> int" where
  "select_row w n_ava j k m =
     (if j < n_ava \<and> m \<noteq> 1 then
        (case ebind (nth_e (matrix w) j) peak of
           Inl e \<Rightarrow> Inl e
         | Inr n \<Rightarrow>
             if n \<noteq> 0 \<and> (m = 0 \<or> n < m) then select_row w n_ava (j + 1) j n
             else select_row w n_ava (j + 1) k m)
      else Inr (k, m))"
  by pat_completeness auto
termination
  by (relation "measure (\<lambda>(w, n_ava, j, k, m). n_ava - j)") auto

function select_col :: "work \<Rightarrow> nat \<Rightarrow> nat \<Rightarrow> nat \<Rightarrow> nat \<Rightarrow> int \<Rightarrow> error + nat \<times> int" where
  "select_col w i n_dim j k m =
     (if j < n_dim \<and> m \<noteq> 1 then
        (case entry w i j of
           Inl e \<Rightarrow> Inl e
         | Inr x \<Rightarrow>
             if \<bar>x\<bar> \<noteq> 0 \<and> (m = 0 \<or> \<bar>x\<bar> < m) then select_col w i n_dim (j + 1) j \<bar>x\<bar>
             else select_col w i n_dim (j + 1) k m)
      else Inr (k, m))"
  by pat_completeness auto
termination
  by (relation "measure (\<lambda>(w, i, n_dim, j, k, m). n_dim - j)") auto

definition select :: "system \<Rightarrow> nat \<Rightarrow> work \<Rightarrow> error + work" where
  "select s i w =
     ebind (ebind (nth_e (matrix w) i) peak) (\<lambda>m0.
     ebind (select_row w (ava s) (i + 1) i m0) (\<lambda>(k, m).
       if m = 0 then Inr w
       else
         ebind (if k \<noteq> i then swap i k w else Inr w) (\<lambda>w.
         ebind (entry w i i) (\<lambda>x.
         ebind (select_col w i (dim s) (i + 1) i \<bar>x\<bar>) (\<lambda>(k, m).
           if m = 0 then Inl AssertionError
           else if k \<noteq> i then
             ebind (swap_seq k i (column w)) (\<lambda>col. Inr (w\<lparr>column := col\<rparr>))
           else Inr w)))))"

subsection \<open>Triangularization and diagonalization\<close>

definition upper_step :: "nat \<Rightarrow> int \<Rightarrow> nat \<Rightarrow> work \<Rightarrow> error + work" where
  "upper_step i key j w =
     ebind (entry w j i) (\<lambda>q.
       if q \<noteq> 0 then
         ebind (take_row i q j key w) (\<lambda>w'.
         ebind (entry w' j i) (\<lambda>z. if z = 0 then Inr w' else Inl AssertionError))
       else Inr w)"

function upper_inner :: "nat \<Rightarrow> int \<Rightarrow> nat \<Rightarrow> nat \<Rightarrow> work \<Rightarrow> error + work" where
  "upper_inner i key n_ava j w =
     (if j < n_ava then
        (case upper_step i key j w of
           Inl e \<Rightarrow> Inl e
         | Inr w' \<Rightarrow> upper_inner i key n_ava (j + 1) w')
      else Inr w)"
  by pat_completeness auto
termination
  by (relation "measure (\<lambda>(i, key, n_ava, j, w). n_ava - j)") auto

function upper_loop :: "system \<Rightarrow> nat \<Rightarrow> nat \<Rightarrow> work \<Rightarrow> error + work" where
  "upper_loop s d i w =
     (if i < d then
        (case select s i w of
           Inl e \<Rightarrow> Inl e
         | Inr w1 \<Rightarrow>
             (case entry w1 i i of
                Inl e \<Rightarrow> Inl e
              | Inr key \<Rightarrow>
                  if key = 0 then Inr w1
                  else (case upper_inner i key (ava s) (i + 1) w1 of
                          Inl e \<Rightarrow> Inl e
                        | Inr w2 \<Rightarrow> upper_loop s d (i + 1) w2)))
      else Inr w)"
  by pat_completeness auto
termination
  by (relation "measure (\<lambda>(s, d, i, w). d - i)") auto

definition upper :: "system \<Rightarrow> work \<Rightarrow> error + work" where
  "upper s w = upper_loop s (min (dim s) (ava s)) 0 w"

definition diag_step :: "system \<Rightarrow> nat \<Rightarrow> int \<Rightarrow> nat \<Rightarrow> work \<Rightarrow> error + work" where
  "diag_step s i num j w =
     (if j = i then Inr w
      else ebind (entry w j i) (\<lambda>n.
        if n \<noteq> 0 then
          (if j > dim s \<or> j < i then take_row i n j num w else Inl AssertionError)
        else Inr w))"

fun diag_inner :: "system \<Rightarrow> nat \<Rightarrow> int \<Rightarrow> nat \<Rightarrow> work \<Rightarrow> error + work" where
  "diag_inner s i num 0 w = Inr w"
| "diag_inner s i num (Suc j) w =
     (case diag_step s i num j w of
        Inl e \<Rightarrow> Inl e
      | Inr w' \<Rightarrow> diag_inner s i num j w')"

fun diag_loop :: "system \<Rightarrow> nat \<Rightarrow> work \<Rightarrow> error + work" where
  "diag_loop s 0 w = Inr w"
| "diag_loop s (Suc i) w =
     (case entry w i i of
        Inl e \<Rightarrow> Inl e
      | Inr num \<Rightarrow>
          if num = 0 then diag_loop s i w
          else (case diag_inner s i num (ava s) w of
                  Inl e \<Rightarrow> Inl e
                | Inr w' \<Rightarrow> diag_loop s i w'))"

definition diag :: "system \<Rightarrow> work \<Rightarrow> error + work" where
  "diag s w = diag_loop s (min (dim s) (ava s)) w"

subsection \<open>Tidying up: available, recipe, kernel\<close>

definition delete_at :: "nat \<Rightarrow> 'a list \<Rightarrow> 'a list" where
  \<comment> \<open>\<open>del seq[i]\<close>\<close>
  "delete_at i seq = take i seq @ drop (Suc i) seq"

fun purge ::
  "nat \<Rightarrow> int list list \<Rightarrow> int list list \<Rightarrow> int list list
     \<Rightarrow> error + int list list \<times> int list list \<times> int list list" where
  "purge 0 avail recip degen = Inr (avail, recip, degen)"
| "purge (Suc i) avail recip degen =
     (case nth_e avail i of
        Inl e \<Rightarrow> Inl e
      | Inr a \<Rightarrow>
          (case nth_e recip i of
             Inl e \<Rightarrow> Inl e
           | Inr r \<Rightarrow>
               if any_nz a then
                 (if any_nz r then purge i avail recip degen else Inl AssertionError)
               else purge i (delete_at i avail) (delete_at i recip)
                      (if any_nz r then degen @ [r] else degen)))"

definition indent_of :: "int list \<Rightarrow> error + nat" where
  \<comment> \<open>\<open>j = 0; while not row[j]: j += 1\<close>, which runs off the end of an all-zero row\<close>
  "indent_of row =
     (if any_nz row then Inr (length (takeWhile (\<lambda>x. x = 0) row)) else Inl IndexError)"

definition tidy :: "work \<Rightarrow> error + int list list \<times> int list list \<times> int list list" where
  \<comment> \<open>returns \<open>(available, recipe, kernel)\<close>\<close>
  "tidy w =
     (if length (matrix w) \<noteq> length (result w) then Inl AssertionError
      else
        ebind (purge (length (matrix w)) (matrix w) (result w) []) (\<lambda>(avail, recip, degen).
        ebind (map_e indent_of avail) (\<lambda>indent.
          let perm = order indent in
          if length avail = length perm \<and> length perm = length recip
          then Inr (permute avail perm, permute recip perm, degen)
          else Inl AssertionError)))"

definition solution :: "system \<Rightarrow> error + int list list \<times> int list list \<times> int list list" where
  \<comment> \<open>\<open>_lazy_get_solution_\<close>\<close>
  "solution s =
     ebind (setup_work s) (\<lambda>w.
     ebind (upper s w) (\<lambda>w.
     ebind (diag s w) tidy))"

definition available :: "system \<Rightarrow> error + int list list" where
  "available s = ebind (solution s) (\<lambda>(av, re, ker). Inr av)"

definition recipe :: "system \<Rightarrow> error + int list list" where
  "recipe s = ebind (solution s) (\<lambda>(av, re, ker). Inr re)"

definition kernel :: "system \<Rightarrow> error + int list list" where
  "kernel s = ebind (solution s) (\<lambda>(av, re, ker). Inr ker)"

subsection \<open>The inverse\<close>

definition insert_at :: "nat \<Rightarrow> 'a \<Rightarrow> 'a list \<Rightarrow> 'a list" where
  \<comment> \<open>\<open>seq.insert(i, x)\<close>\<close>
  "insert_at i x seq = take i seq @ x # drop i seq"

definition inverse_step ::
  "nat \<Rightarrow> int list list \<Rightarrow> int list list \<Rightarrow> int list list \<Rightarrow> nat \<Rightarrow> nat \<Rightarrow> nat \<Rightarrow> nat list
     \<Rightarrow> error + int list list \<times> nat \<times> nat \<times> nat list" where
  \<comment> \<open>one round of the loop, up to \<open>i += 1\<close>; yields the new \<open>(how, j, k, co)\<close>.  The scaling
      loop of the first branch counts the same variable \<open>k\<close> down to 0.\<close>
  "inverse_step n_ava can ker how i j k co =
     ebind (nth_e can j) (\<lambda>row.
     ebind (nth_e row i) (\<lambda>x.
       if x \<noteq> 0 then
         ebind (nth_e how i) (\<lambda>h.
           let j = j + 1;
               h = h @ [x];
               f = hcf h;
               f = (if f \<noteq> 0 \<and> last h < 0 then - f else f);
               scaled = (f > 1 \<or> f < 0);
               h = (if scaled then divide_all f h else h);
               k = (if scaled then 0 else k);
               co = (if any_nz (take i row) \<or> any_nz (drop (1 + i) row) then co @ [j] else co)
           in Inr (how[i := h], j, k, co))
       else if k < length ker then Inr (insert_at i (ker ! k @ [0]) how, j, k + 1, co)
       else Inr (insert_at i (replicate (n_ava + 1) 0) how, j, k, co)))"

function inverse_loop ::
  "nat \<Rightarrow> nat \<Rightarrow> int list list \<Rightarrow> int list list \<Rightarrow> int list list \<Rightarrow> nat \<Rightarrow> nat \<Rightarrow> nat \<Rightarrow> nat list
     \<Rightarrow> error + int list list \<times> nat list" where
  "inverse_loop n_dim n_ava can ker how i j k co =
     (if i < n_dim \<and> j < length can then
        (case inverse_step n_ava can ker how i j k co of
           Inl e \<Rightarrow> Inl e
         | Inr (how', j', k', co') \<Rightarrow> inverse_loop n_dim n_ava can ker how' (i + 1) j' k' co')
      else Inr (how, co))"
  by pat_completeness auto
termination
  by (relation "measure (\<lambda>(n_dim, n_ava, can, ker, how, i, j, k, co). n_dim - i)") auto

definition inverse_of :: "system \<Rightarrow> error + int list list" where
  \<comment> \<open>\<open>_lazy_get_inverse_\<close>\<close>
  "inverse_of s =
     ebind (solution s) (\<lambda>(can, how, ker).
     ebind (inverse_loop (dim s) (ava s) can ker how 0 0 0 []) (\<lambda>(how, co).
       if co \<noteq> [] then Inl (IrreducibleComposites co) else Inr how))"

subsection \<open>Projection: \<open>contract\<close> and \<open>obtain\<close>\<close>

fun dragwith_loop ::
  "int list list \<Rightarrow> nat \<Rightarrow> int list \<Rightarrow> nat \<Rightarrow> int \<Rightarrow> int \<Rightarrow> error + int \<times> int" where
  "dragwith_loop m j row 0 tot den = Inr (tot, den)"
| "dragwith_loop m j row (Suc k) tot den =
     (case nth_e m k of
        Inl e \<Rightarrow> Inl e
      | Inr right \<Rightarrow>
     (case nth_e row k of
        Inl e \<Rightarrow> Inl e
      | Inr rk \<Rightarrow>
     (case nth_e right j of
        Inl e \<Rightarrow> Inl e
      | Inr rj \<Rightarrow>
     (case last_e right of
        Inl e \<Rightarrow> Inl e
      | Inr s \<Rightarrow>
          let v = rk * rj;
              tot = tot * s + v * den;
              den = den * s;
              f = gcd2 tot den
          in if f > 1 then dragwith_loop m j row k (tot div f) (den div f)
             else dragwith_loop m j row k tot den))))"

definition dragwith :: "int list list \<Rightarrow> nat \<Rightarrow> int list \<Rightarrow> error + int \<times> int" where
  "dragwith m j row =
     (if length row \<noteq> length m then Inl AssertionError
      else ebind (nth_e m 0) (\<lambda>first.
        if j < length first then dragwith_loop m j row (length row) 0 1
        else Inl AssertionError))"

definition denominate :: "(int \<times> int) list \<Rightarrow> int \<Rightarrow> error + int list" where
  "denominate pairs scale =
     (let den = lcm_list (map snd pairs) in
      ebind (map_e (\<lambda>(n, d). if d = 0 then Inl ZeroDivisionError else Inr (n * den div d)) pairs)
        (\<lambda>nums.
          let ans = nums @ [den * scale];
              f = hcf ans;
              f = (if last ans < 0 then - f else f)
          in Inr (if f > 1 \<or> f < 0 then divide_all f ans else ans)))"

definition contract_col :: "system \<Rightarrow> nat \<Rightarrow> int list \<Rightarrow> error + int \<times> int" where
  \<comment> \<open>\<open>__contract\<close>\<close>
  "contract_col s j row = dragwith (problem s) j row"

definition lincomb :: "system \<Rightarrow> int list \<Rightarrow> int \<Rightarrow> error + int list" where
  \<comment> \<open>\<open>__lincomb\<close>\<close>
  "lincomb s row scale =
     ebind (map_e (\<lambda>j. contract_col s j row) [0..<dim s]) (\<lambda>pairs. denominate pairs scale)"

definition contract :: "system \<Rightarrow> int list \<Rightarrow> error + int list" where
  "contract s row =
     (let n = ava s in
      if length row > 1 + n then Inl (TooManyEntries row n)
      else
        let row = (if length row < n then pad n row else row);
            (row, scale) = (if length row > n then (take n row, row ! n) else (row, 1))
        in lincomb s row scale)"

definition obtain_row :: "system \<Rightarrow> int list \<Rightarrow> int \<Rightarrow> error + int list" where
  \<comment> \<open>\<open>__obtain\<close>\<close>
  "obtain_row s row scale =
     ebind (inverse_of s) (\<lambda>inv.
     ebind (nth_e inv 0) (\<lambda>first.
     ebind (map_e (\<lambda>j. dragwith inv j row) [0..<length first]) (\<lambda>pairs.
       denominate pairs scale)))"

definition obtain_scaled :: "system \<Rightarrow> int list \<Rightarrow> int \<Rightarrow> error + int list" where
  \<comment> \<open>\<open>obtain(row, scale)\<close>\<close>
  "obtain_scaled s row scale =
     (let n = dim s in
      if length row > 1 + n then Inl (TooManyEntries row n)
      else
        let row = (if length row < n then pad n row else row);
            (row, scale) = (if length row > n then (take n row, row ! n) else (row, 1))
        in obtain_row s row scale)"

subsection \<open>Products with the problem, as exact rationals\<close>

definition apply_row :: "int list \<Rightarrow> int list list \<Rightarrow> nat \<Rightarrow> rat list" where
  \<comment> \<open>the coefficients \<open>left\<close> times the rational rows \<open>p\<close>: entry \<open>j\<close> is the sum over \<open>k\<close> of
      \<open>left[k] * p[k][j] / p[k][-1]\<close>, what \<open>__confirm\<close> and \<open>__check\<close> compare against\<close>
  "apply_row left p n =
     map (\<lambda>j. sum_list (map (\<lambda>(c, r). of_int c * of_int (r ! j) / of_int (last r)) (zip left p)))
       [0..<n]"

definition times_problem :: "int list list \<Rightarrow> system \<Rightarrow> rat list list" where
  "times_problem m s = map (\<lambda>left. apply_row left (problem s) (dim s)) m"

definition as_rat :: "int list list \<Rightarrow> rat list list" where
  "as_rat m = map (map of_int) m"

subsection \<open>The working invariant\<close>

definition invariant :: "system \<Rightarrow> work \<Rightarrow> bool" where
  \<comment> \<open>\<open>WorkingResult \<cdot> Problem = WorkingMatrix\<close>, entry for entry, as rationals\<close>
  "invariant s w \<longleftrightarrow> times_problem (result w) s = as_rat (matrix w)"

definition shaped :: "system \<Rightarrow> work \<Rightarrow> bool" where
  \<comment> \<open>every row of \<open>__result\<close> has one coefficient for each available vector\<close>
  "shaped s w \<longleftrightarrow> (\<forall>r \<in> set (result w). length r = ava s)"

definition consistent :: "system \<Rightarrow> work \<Rightarrow> bool" where
  "consistent s w \<longleftrightarrow> invariant s w \<and> shaped s w"

subsection \<open>Euclid's algorithm, for evaluating the common divisors\<close>

function euclid :: "int \<Rightarrow> int \<Rightarrow> int" where
  "euclid a b = (if b = 0 then \<bar>a\<bar> else euclid b (a mod b))"
  by pat_completeness auto
termination
  by (relation "measure (\<lambda>(a, b). nat \<bar>b\<bar>)") (auto simp: abs_mod_less)

declare euclid.simps [simp del]

declare select_row.simps [simp del] select_col.simps [simp del]
  upper_inner.simps [simp del] upper_loop.simps [simp del] inverse_loop.simps [simp del]

definition malformed_row_error :: "error \<Rightarrow> bool" where
  "malformed_row_error e = (case e of OverLongRow r \<Rightarrow> True | ZeroDenominator r \<Rightarrow> True | _ \<Rightarrow> False)"

section \<open>Properties\<close>

subsection \<open>Evaluating the common divisors\<close>

lemma euclid_gcd: "euclid a b = gcd a b"
proof (induction a b rule: euclid.induct)
  case (1 a b)
  show ?case
  proof (cases "b = 0")
    case True
    then show ?thesis by (simp add: euclid.simps [of a 0])
  next
    case False
    with 1 have "euclid a b = gcd b (a mod b)" by (simp add: euclid.simps [of a b])
    also have "\<dots> = gcd a b" by (metis gcd_red_int)
    finally show ?thesis .
  qed
qed

lemma hcf_code [code]: "hcf xs = foldr euclid xs 0"
  by (simp add: hcf_def euclid_gcd [abs_def])

lemma gcd2_code [code]: "gcd2 a b = euclid a b"
  by (simp add: gcd2_def euclid_gcd)

lemma lcm_list_code [code]: "lcm_list xs = foldr (\<lambda>a b. \<bar>a\<bar> * \<bar>b\<bar> div euclid a b) xs 1"
  by (simp add: lcm_list_def euclid_gcd lcm_altdef_int [abs_def])

subsection \<open>Ingestion\<close>

lemma ingest_row_raises:
  "(\<exists>e. ingest_row n row = Inl e) \<longleftrightarrow>
     length row > n + 1 \<or> (length row = n + 1 \<and> row ! n = 0)"
  by (auto simp: ingest_row_def pad_def Let_def nth_append)

lemma ingest_row_error_kind: "ingest_row n row = Inl e \<Longrightarrow> malformed_row_error e"
  by (auto simp: ingest_row_def malformed_row_error_def Let_def split: if_splits)

lemma ingest_raises:
  "(\<exists>e. ingest n rows = Inl e) \<longleftrightarrow>
     (\<exists>row \<in> set rows. length row > n + 1 \<or> (length row = n + 1 \<and> row ! n = 0))"
proof (induction rows)
  case Nil
  show ?case by simp
next
  case (Cons row rows)
  show ?case
  proof (cases "ingest_row n row")
    case (Inl e)
    then have "length row > n + 1 \<or> (length row = n + 1 \<and> row ! n = 0)"
      using ingest_row_raises [of n row] by auto
    with Inl show ?thesis by auto
  next
    case (Inr r)
    then have "\<not> (length row > n + 1 \<or> (length row = n + 1 \<and> row ! n = 0))"
      using ingest_row_raises [of n row] by auto
    with Inr Cons show ?thesis by (auto split: sum.splits)
  qed
qed

lemma ingest_error_kind: "ingest n rows = Inl e \<Longrightarrow> malformed_row_error e"
  by (induction rows) (auto split: sum.splits dest: ingest_row_error_kind)

lemma System_raises_iff: "(\<exists>e. System n rows = Inl e) \<longleftrightarrow> (\<exists>e. ingest n rows = Inl e)"
  by (auto simp: System_def split: sum.splits)

lemma System_error_kind: "System n rows = Inl e \<Longrightarrow> malformed_row_error e"
  by (auto simp: System_def split: sum.splits dest: ingest_error_kind)

text \<open>
  Claim C9.  Constructing \<open>System(n, rows)\<close> raises exactly when some input row has more than
  \<open>n + 1\<close> entries or has exactly \<open>n + 1\<close> entries with a zero last entry; the exception is one
  of the two malformed-row errors of ingestion, and it is the value of the construction
  itself, so that no system object exists afterwards.
\<close>

theorem construction_raises_iff_malformed:
  "((\<exists>e. System n rows = Inl e) \<longleftrightarrow>
      (\<exists>row \<in> set rows. length row > n + 1 \<or> (length row = n + 1 \<and> row ! n = 0)))
   \<and> (\<forall>e. System n rows = Inl e \<longrightarrow> malformed_row_error e)"
  using System_raises_iff [of n rows] ingest_raises [of n rows] System_error_kind [of n rows]
  by blast

theorem construction_raises_iff_malformed_witness:
  "System 2 [[1, 0], [3, 4, 0]] = Inl (ZeroDenominator [3, 4, 0])
   \<and> (\<exists>row \<in> set [[1, 0], [3, 4, 0 :: int]].
         length row > 2 + 1 \<or> (length row = 2 + 1 \<and> row ! 2 = 0))
   \<and> malformed_row_error (ZeroDenominator [3, 4, 0])
   \<and> System 2 [[1, 0], [3, 4, 5]] = Inr \<lparr>dim = 2, ava = 2, problem = [[1, 0, 1], [3, 4, 5]]\<rparr>
   \<and> \<not> (\<exists>row \<in> set [[1, 0], [3, 4, 5 :: int]].
         length row > 2 + 1 \<or> (length row = 2 + 1 \<and> row ! 2 = 0))"
proof -
  have a: "System 2 [[1, 0], [3, 4, 0]] = Inl (ZeroDenominator [3, 4, 0])"
    by code_simp
  have b: "System 2 [[1, 0], [3, 4, 5]] = Inr \<lparr>dim = 2, ava = 2, problem = [[1, 0, 1], [3, 4, 5]]\<rparr>"
    by code_simp
  from a b construction_raises_iff_malformed [of 2 "[[1, 0], [3, 4, 0]]"]
    construction_raises_iff_malformed [of 2 "[[1, 0], [3, 4, 5]]"]
  show ?thesis by simp
qed

subsection \<open>The scale argument of \<open>obtain\<close>\<close>

text \<open>
  Claim C10.  The \<open>scale\<close> argument of \<open>obtain\<close> never affects what it returns or raises:
  it is overwritten, by the row's explicit denominator or by 1, before it is used.
\<close>

theorem obtain_ignores_scale: "obtain_scaled s row scale = obtain_scaled s row 1"
  by (simp add: obtain_scaled_def Let_def)

subsection \<open>The row operations where the dimension does not exceed the number of rows\<close>

text \<open>
  With at least as many available vectors as dimensions the final loop of \<open>__take\<close> either
  reaches every entry of the matrix row or raises, so a state that is returned satisfies
  \<open>WorkingResult \<cdot> Problem = WorkingMatrix\<close>.  This part proves that every step of the
  reduction then keeps the equation, and that the solution, when it is returned, has
  \<open>recipe \<cdot> problem = available\<close> and only true dependencies in \<open>kernel\<close>.
\<close>

lemma length_apply_row [simp]: "length (apply_row left p n) = n"
  by (simp add: apply_row_def)

lemma nth_apply_row:
  "j < n \<Longrightarrow> apply_row left p n ! j
     = sum_list (map (\<lambda>(c, r). of_int c * of_int (r ! j) / of_int (last r)) (zip left p))"
  by (simp add: apply_row_def)

lemma sum_zip_combine:
  fixes g :: "int list \<Rightarrow> rat"
  shows "length row = length top_row \<Longrightarrow>
    sum_list (map (\<lambda>(c, r). of_int c * g r) (zip (map2 (\<lambda>r t. r * nj - t * ni) row top_row) p))
    = of_int nj * sum_list (map (\<lambda>(c, r). of_int c * g r) (zip row p))
      - of_int ni * sum_list (map (\<lambda>(c, r). of_int c * g r) (zip top_row p))"
proof (induction p arbitrary: row top_row)
  case Nil
  then show ?case by simp
next
  case (Cons a p)
  show ?case
  proof (cases row)
    case Nil
    with Cons.prems show ?thesis by simp
  next
    case (Cons x xs)
    with Cons.prems obtain y ys where t: "top_row = y # ys" "length xs = length ys"
      by (cases top_row) auto
    from Cons.IH [OF t(2)] show ?thesis
      by (simp add: Cons t algebra_simps)
  qed
qed

lemma sum_zip_divide:
  fixes g :: "int list \<Rightarrow> rat"
  shows "f \<noteq> 0 \<Longrightarrow> \<forall>x \<in> set row. f dvd x \<Longrightarrow>
    sum_list (map (\<lambda>(c, r). of_int c * g r) (zip (map (\<lambda>x. x div f) row) p))
    = sum_list (map (\<lambda>(c, r). of_int c * g r) (zip row p)) / of_int f"
proof (induction p arbitrary: row)
  case Nil
  then show ?case by simp
next
  case (Cons a p)
  show ?case
  proof (cases row)
    case Nil
    then show ?thesis by simp
  next
    case (Cons x xs)
    with Cons.prems have d: "f dvd x" and r: "\<forall>x \<in> set xs. f dvd x" by auto
    from d Cons.prems(1) have "(of_int (x div f) :: rat) = of_int x / of_int f"
      by auto
    with Cons.IH [OF Cons.prems(1) r] show ?thesis
      by (simp add: Cons add_divide_distrib)
  qed
qed

lemma hcf_dvd: "x \<in> set xs \<Longrightarrow> hcf xs dvd x"
proof (induction xs)
  case Nil
  then show ?case by simp
next
  case (Cons a xs)
  have h: "hcf (a # xs) = gcd a (hcf xs)" by (simp add: hcf_def)
  show ?case
  proof (cases "x = a")
    case True
    then show ?thesis by (simp add: h)
  next
    case False
    with Cons have "hcf xs dvd x" by simp
    then show ?thesis unfolding h by (rule dvd_trans [OF gcd_dvd2])
  qed
qed

lemma hcf_zero_iff: "hcf xs = 0 \<longleftrightarrow> (\<forall>x \<in> set xs. x = 0)"
  by (induction xs) (auto simp: hcf_def)


lemma nth_apply_row_div:
  "j < n \<Longrightarrow> apply_row left p n ! j
     = sum_list (map (\<lambda>(c, r). of_int c * (of_int (r ! j) / of_int (last r))) (zip left p))"
  by (simp add: apply_row_def)

lemma apply_row_combine:
  assumes "length row = length top_row"
  shows "apply_row (map2 (\<lambda>r t. r * nj - t * ni) row top_row) p n
     = map2 (\<lambda>a b. of_int nj * a - of_int ni * b) (apply_row row p n) (apply_row top_row p n)"
proof (rule nth_equalityI)
  show "length (apply_row (map2 (\<lambda>r t. r * nj - t * ni) row top_row) p n)
      = length (map2 (\<lambda>a b. of_int nj * a - of_int ni * b) (apply_row row p n) (apply_row top_row p n))"
    by simp
next
  fix j assume "j < length (apply_row (map2 (\<lambda>r t. r * nj - t * ni) row top_row) p n)"
  then have j: "j < n" by simp
  show "apply_row (map2 (\<lambda>r t. r * nj - t * ni) row top_row) p n ! j
      = map2 (\<lambda>a b. of_int nj * a - of_int ni * b) (apply_row row p n) (apply_row top_row p n) ! j"
    using j sum_zip_combine [OF assms, where g = "\<lambda>r. of_int (r ! j) / of_int (last r)"
        and p = p and nj = nj and ni = ni]
    by (simp add: nth_apply_row_div)
qed

lemma apply_row_divide:
  assumes "f \<noteq> 0" "\<forall>x \<in> set row. f dvd x"
  shows "apply_row (map (\<lambda>x. x div f) row) p n = map (\<lambda>a. a / of_int f) (apply_row row p n)"
proof (rule nth_equalityI)
  show "length (apply_row (map (\<lambda>x. x div f) row) p n)
      = length (map (\<lambda>a. a / of_int f) (apply_row row p n))"
    by simp
next
  fix j assume "j < length (apply_row (map (\<lambda>x. x div f) row) p n)"
  then have j: "j < n" by simp
  show "apply_row (map (\<lambda>x. x div f) row) p n ! j = map (\<lambda>a. a / of_int f) (apply_row row p n) ! j"
    using j sum_zip_divide [OF assms, where g = "\<lambda>r. of_int (r ! j) / of_int (last r)" and p = p]
    by (simp add: nth_apply_row_div)
qed

lemma of_int_combine:
  assumes "length mrow = length mtop"
  shows "map of_int (map2 (\<lambda>r t. r * nj - t * ni) mrow mtop)
     = map2 (\<lambda>a b. of_int nj * a - of_int ni * b) (map of_int mrow) (map of_int mtop :: rat list)"
  using assms by (intro nth_equalityI) (auto simp: algebra_simps)

lemma rat_of_int_div: "f dvd x \<Longrightarrow> f \<noteq> 0 \<Longrightarrow> (of_int (x div f) :: rat) = of_int x / of_int f"
  by auto

lemma of_int_divide:
  assumes "f \<noteq> 0" "\<forall>x \<in> set m. f dvd x"
  shows "map of_int (map (\<lambda>x. x div f) m) = map (\<lambda>a. a / of_int f) (map of_int m :: rat list)"
  using assms by (intro nth_equalityI) (simp_all add: rat_of_int_div)

lemma divide_pair_eq:
  "k \<le> length row \<Longrightarrow>
   divide_pair k f mat row =
     (if k \<le> length mat
      then Inr (map (\<lambda>x. x div f) (take k mat) @ drop k mat,
                map (\<lambda>x. x div f) (take k row) @ drop k row)
      else Inl IndexError)"
proof (induction k arbitrary: mat row)
  case 0
  then show ?case by simp
next
  case (Suc k)
  show ?case
  proof (cases "k < length mat")
    case True
    from Suc.prems have kr: "k < length row" by simp
    have "divide_pair (Suc k) f mat row
        = divide_pair k f (mat[k := mat ! k div f]) (row[k := row ! k div f])"
      using True kr by simp
    also have "\<dots> = Inr (map (\<lambda>x. x div f) (take k (mat[k := mat ! k div f])) @ drop k (mat[k := mat ! k div f]),
                map (\<lambda>x. x div f) (take k (row[k := row ! k div f])) @ drop k (row[k := row ! k div f]))"
      using Suc.IH [of "row[k := row ! k div f]" "mat[k := mat ! k div f]"] True kr by simp
    also have "\<dots> = Inr (map (\<lambda>x. x div f) (take (Suc k) mat) @ drop (Suc k) mat,
                map (\<lambda>x. x div f) (take (Suc k) row) @ drop (Suc k) row)"
      using True kr by (simp add: take_Suc_conv_app_nth Cons_nth_drop_Suc [symmetric] upd_conv_take_nth_drop)
    finally show ?thesis using True by simp
  next
    case False
    with Suc.prems show ?thesis by simp
  qed
qed

lemma divide_pair_Inr:
  assumes "length mat \<le> length row" "divide_pair (length row) f mat row = Inr (m, r)"
  shows "m = map (\<lambda>x. x div f) mat \<and> r = map (\<lambda>x. x div f) row"
  using assms divide_pair_eq [of "length row" row f mat] by (auto split: if_splits)


lemma invariant_length: "invariant s w \<Longrightarrow> length (result w) = length (matrix w)"
  unfolding invariant_def times_problem_def as_rat_def by (rule map_eq_imp_length_eq)

lemma invariant_row:
  assumes "invariant s w" "k < length (matrix w)"
  shows "apply_row (result w ! k) (problem s) (dim s) = map of_int (matrix w ! k)"
proof -
  from assms(1) have "map (\<lambda>left. apply_row left (problem s) (dim s)) (result w) ! k
      = map (map of_int) (matrix w) ! k"
    by (simp add: invariant_def times_problem_def as_rat_def)
  with assms invariant_length [OF assms(1)] show ?thesis by simp
qed

lemma invariant_row_length:
  assumes "invariant s w" "k < length (matrix w)"
  shows "length (matrix w ! k) = dim s"
proof -
  have "length (map rat_of_int (matrix w ! k)) = dim s"
    unfolding invariant_row [OF assms, symmetric] by simp
  then show ?thesis by simp
qed

lemma invariant_update:
  assumes "invariant s w" "apply_row R (problem s) (dim s) = map of_int M"
  shows "invariant s (w\<lparr>matrix := (matrix w)[j := M], result := (result w)[j := R]\<rparr>)"
  using assms by (simp add: invariant_def times_problem_def as_rat_def map_update)

lemma shaped_update:
  assumes "shaped s w" "length R = ava s"
  shows "shaped s (w\<lparr>matrix := m, result := (result w)[j := R]\<rparr>)"
  using assms by (auto simp: shaped_def dest: set_update_subset_insert [THEN subsetD])

lemma take_row_bounds:
  assumes "take_row i ni j nj w = Inr w'"
  shows "i < length (matrix w) \<and> j < length (matrix w) \<and> i < length (result w) \<and> j < length (result w)"
proof -
  have "i < length (matrix w)"
    using assms by (cases "i < length (matrix w)") (simp_all add: take_row_def ebind_def nth_e_def)
  moreover have "j < length (matrix w)"
    using assms \<open>i < length (matrix w)\<close>
    by (cases "j < length (matrix w)") (simp_all add: take_row_def ebind_def nth_e_def)
  moreover have "i < length (result w)"
    using assms \<open>i < length (matrix w)\<close> \<open>j < length (matrix w)\<close>
    by (cases "i < length (result w)")
       (simp_all add: take_row_def ebind_def nth_e_def split: sum.splits)
  moreover have "j < length (result w)"
    using assms \<open>i < length (matrix w)\<close> \<open>j < length (matrix w)\<close> \<open>i < length (result w)\<close>
    by (cases "j < length (result w)")
       (simp_all add: take_row_def ebind_def nth_e_def split: sum.splits)
  ultimately show ?thesis by simp
qed


lemma take_row_preserves:
  assumes inv: "invariant s w" and sh: "shaped s w" and le: "dim s \<le> ava s"
    and tk: "take_row i ni j nj w = Inr w'"
  shows "invariant s w' \<and> shaped s w' \<and> column w' = column w"
proof -
  from take_row_bounds [OF tk]
  have bi: "i < length (matrix w)" and bj: "j < length (matrix w)"
    and ri: "i < length (result w)" and rj: "j < length (result w)" by simp_all
  have lm: "length (matrix w ! i) = dim s" "length (matrix w ! j) = dim s"
    using invariant_row_length [OF inv] bi bj by simp_all
  have lr: "length (result w ! i) = ava s" "length (result w ! j) = ava s"
    using sh ri rj by (simp_all add: shaped_def)
  define mrow where "mrow = map2 (\<lambda>r t. r * nj - t * ni) (matrix w ! j) (matrix w ! i)"
  define rrow where "rrow = map2 (\<lambda>r t. r * nj - t * ni) (result w ! j) (result w ! i)"
  define f where "f = (if filter (\<lambda>x. x \<noteq> 0) mrow \<noteq> [] \<and> hd (filter (\<lambda>x. x \<noteq> 0) mrow) < 0
                       then - hcf (mrow @ rrow) else hcf (mrow @ rrow))"
  have lens: "length mrow = dim s" "length rrow = ava s"
    by (simp_all add: mrow_def rrow_def lm lr)
  have "apply_row rrow (problem s) (dim s)
      = map2 (\<lambda>a b. of_int nj * a - of_int ni * b)
          (apply_row (result w ! j) (problem s) (dim s)) (apply_row (result w ! i) (problem s) (dim s))"
    unfolding rrow_def by (rule apply_row_combine) (simp add: lr)
  also have "\<dots> = map2 (\<lambda>a b. of_int nj * a - of_int ni * b)
          (map of_int (matrix w ! j)) (map of_int (matrix w ! i))"
    by (simp only: invariant_row [OF inv bj] invariant_row [OF inv bi])
  also have "\<dots> = map of_int mrow"
    unfolding mrow_def by (rule of_int_combine [symmetric]) (simp add: lm)
  finally have row: "apply_row rrow (problem s) (dim s) = map of_int mrow" .
  have unfolded: "take_row i ni j nj w =
      (if f > 1 \<or> f < 0 then
         ebind (divide_pair (length rrow) f mrow rrow) (\<lambda>(mat, row).
           Inr (w\<lparr>matrix := (matrix w)[j := mat], result := (result w)[j := row]\<rparr>))
       else Inr (w\<lparr>matrix := (matrix w)[j := mrow], result := (result w)[j := rrow]\<rparr>))"
    using bi bj ri rj
    by (simp add: take_row_def ebind_def nth_e_def combine_def lm lr Let_def
          mrow_def [symmetric] rrow_def [symmetric] f_def)
  show ?thesis
  proof (cases "f > 1 \<or> f < 0")
    case False
    with tk unfolded
    have w': "w' = w\<lparr>matrix := (matrix w)[j := mrow], result := (result w)[j := rrow]\<rparr>"
      by simp
    show ?thesis unfolding w'
      using invariant_update [OF inv row] shaped_update [OF sh lens(2)] by simp
  next
    case True
    then have f0: "f \<noteq> 0" by auto
    have dv: "\<forall>x \<in> set (mrow @ rrow). f dvd x"
      using hcf_dvd [of _ "mrow @ rrow"] by (auto simp: f_def)
    from True tk unfolded obtain mat row where
      dp: "divide_pair (length rrow) f mrow rrow = Inr (mat, row)"
      and w': "w' = w\<lparr>matrix := (matrix w)[j := mat], result := (result w)[j := row]\<rparr>"
      by (auto simp: ebind_def split: sum.splits)
    from divide_pair_Inr [OF _ dp] le lens
    have mat: "mat = map (\<lambda>x. x div f) mrow" and rw: "row = map (\<lambda>x. x div f) rrow"
      by simp_all
    from dv have dm: "\<forall>x \<in> set mrow. f dvd x" and dr: "\<forall>x \<in> set rrow. f dvd x"
      by simp_all
    have "apply_row row (problem s) (dim s) = map (\<lambda>a. a / of_int f) (map of_int mrow)"
      unfolding rw by (simp only: apply_row_divide [OF f0 dr] row)
    also have "\<dots> = map of_int mat"
      unfolding mat by (rule of_int_divide [OF f0 dm, symmetric])
    finally have "apply_row row (problem s) (dim s) = map of_int mat" .
    moreover have "length row = ava s" by (simp add: rw lens)
    ultimately show ?thesis unfolding w'
      using invariant_update [OF inv] shaped_update [OF sh] by simp
  qed
qed

lemma ebind_Inr: "ebind m f = Inr y \<longleftrightarrow> (\<exists>x. m = Inr x \<and> f x = Inr y)"
  by (cases m) (simp_all add: ebind_def)

lemma swap_seq_Inr:
  "swap_seq i j seq = Inr seq' \<longleftrightarrow>
     i < length seq \<and> j < length seq \<and> seq' = seq[i := seq ! j, j := seq ! i]"
  by (auto simp: swap_seq_def)

lemma map_swap_eq:
  assumes "map f xs = map g ys" "i < length xs" "j < length xs"
  shows "map f (xs[i := xs ! j, j := xs ! i]) = map g (ys[i := ys ! j, j := ys ! i])"
proof -
  from assms(1) have len: "length xs = length ys" by (rule map_eq_imp_length_eq)
  have nth: "f (xs ! k) = g (ys ! k)" if "k < length xs" for k
    using arg_cong [OF assms(1), of "\<lambda>l. l ! k"] that len by simp
  show ?thesis
    using assms nth [OF assms(2)] nth [OF assms(3)] by (simp add: map_update)
qed

lemma set_swap_subset:
  assumes "i < length xs" "j < length xs"
  shows "set (xs[i := xs ! j, j := xs ! i]) \<subseteq> set xs"
proof
  fix x assume "x \<in> set (xs[i := xs ! j, j := xs ! i])"
  then obtain k where "k < length xs" "x = xs[i := xs ! j, j := xs ! i] ! k"
    by (auto simp: in_set_conv_nth)
  with assms show "x \<in> set xs"
    by (cases "k = j"; cases "k = i") (auto simp: nth_list_update)
qed

lemma swap_preserves:
  assumes "consistent s w" "swap i j w = Inr w'"
  shows "consistent s w'"
proof -
  from assms(2) obtain m r where m: "swap_seq i j (matrix w) = Inr m"
    and r: "swap_seq i j (result w) = Inr r" and w': "w' = w\<lparr>matrix := m, result := r\<rparr>"
    by (auto simp: swap_def ebind_Inr)
  from m r have b: "i < length (result w)" "j < length (result w)"
    and m': "m = (matrix w)[i := matrix w ! j, j := matrix w ! i]"
    and r': "r = (result w)[i := result w ! j, j := result w ! i]"
    by (simp_all add: swap_seq_Inr)
  from assms(1) have inv: "times_problem (result w) s = as_rat (matrix w)"
    and sh: "\<forall>x \<in> set (result w). length x = ava s"
    by (simp_all add: consistent_def invariant_def shaped_def)
  have "times_problem r s = as_rat m"
    unfolding m' r' times_problem_def as_rat_def
    using inv b by (intro map_swap_eq) (simp_all add: times_problem_def as_rat_def)
  moreover have "set r \<subseteq> set (result w)"
    unfolding r' using b by (rule set_swap_subset)
  ultimately show ?thesis
    using sh by (auto simp: consistent_def invariant_def shaped_def w')
qed


lemma consistent_column [simp]: "consistent s (w\<lparr>column := c\<rparr>) = consistent s w"
  by (simp add: consistent_def invariant_def shaped_def)

lemma select_preserves:
  assumes "consistent s w" "select s i w = Inr w'"
  shows "consistent s w'"
proof -
  from assms(2) obtain m0 k m where
    "select_row w (ava s) (i + 1) i m0 = Inr (k, m)"
    and rest: "(if m = 0 then Inr w
       else ebind (if k \<noteq> i then swap i k w else Inr w) (\<lambda>w.
            ebind (entry w i i) (\<lambda>x.
            ebind (select_col w i (dim s) (i + 1) i \<bar>x\<bar>) (\<lambda>(k, m).
              if m = 0 then Inl AssertionError
              else if k \<noteq> i then
                ebind (swap_seq k i (column w)) (\<lambda>col. Inr (w\<lparr>column := col\<rparr>))
              else Inr w)))) = Inr w'"
    by (auto simp: select_def ebind_Inr)
  show ?thesis
  proof (cases "m = 0")
    case True
    with rest assms(1) show ?thesis by simp
  next
    case False
    with rest obtain w1 where w1: "(if k \<noteq> i then swap i k w else Inr w) = Inr w1"
      and rest2: "ebind (entry w1 i i) (\<lambda>x.
            ebind (select_col w1 i (dim s) (i + 1) i \<bar>x\<bar>) (\<lambda>(k, m).
              if m = 0 then Inl AssertionError
              else if k \<noteq> i then
                ebind (swap_seq k i (column w1)) (\<lambda>col. Inr (w1\<lparr>column := col\<rparr>))
              else Inr w1)) = Inr w'"
      by (auto simp: ebind_Inr)
    from w1 assms(1) have c1: "consistent s w1"
      by (auto split: if_splits intro: swap_preserves)
    from rest2 have "w' = w1 \<or> (\<exists>col. w' = w1\<lparr>column := col\<rparr>)"
      by (auto simp: ebind_Inr split: if_splits)
    with c1 show ?thesis by auto
  qed
qed

lemma take_row_consistent:
  assumes "consistent s w" "dim s \<le> ava s" "take_row i ni j nj w = Inr w'"
  shows "consistent s w'"
  using assms take_row_preserves [of s w i ni j nj w'] by (simp add: consistent_def)

lemma upper_step_preserves:
  assumes "consistent s w" "dim s \<le> ava s" "upper_step i key j w = Inr w'"
  shows "consistent s w'"
proof -
  from assms(3) have "w' = w \<or> take_row i (case entry w j i of Inr q \<Rightarrow> q | Inl e \<Rightarrow> 0) j key w = Inr w'"
    by (auto simp: upper_step_def ebind_Inr split: if_splits)
  with assms show ?thesis by (auto intro: take_row_consistent)
qed

lemma upper_inner_preserves:
  "consistent s w \<Longrightarrow> dim s \<le> ava s \<Longrightarrow> upper_inner i key n j w = Inr w'
     \<Longrightarrow> consistent s w'"
proof (induction i key n j w rule: upper_inner.induct)
  case (1 i key n_ava j w)
  show ?case
  proof (cases "j < n_ava")
    case False
    with "1.prems" show ?thesis by (simp add: upper_inner.simps [of i key n_ava j w])
  next
    case True
    with "1.prems"(3) obtain w1 where a: "upper_step i key j w = Inr w1"
      and b: "upper_inner i key n_ava (j + 1) w1 = Inr w'"
      by (simp add: upper_inner.simps [of i key n_ava j w] split: sum.splits)
    from upper_step_preserves [OF "1.prems"(1,2) a] have "consistent s w1" .
    from "1.IH" [OF True a this "1.prems"(2) b] show ?thesis .
  qed
qed

lemma upper_loop_preserves:
  "consistent s w \<Longrightarrow> dim s \<le> ava s \<Longrightarrow> upper_loop s d i w = Inr w'
     \<Longrightarrow> consistent s w'"
proof (induction s d i w rule: upper_loop.induct)
  case (1 s d i w)
  show ?case
  proof (cases "i < d")
    case False
    with "1.prems" show ?thesis by (simp add: upper_loop.simps [of s d i w])
  next
    case True
    with "1.prems"(3) obtain w1 key where a: "select s i w = Inr w1"
      and k: "entry w1 i i = Inr key"
      and rest: "(if key = 0 then Inr w1
                  else (case upper_inner i key (ava s) (i + 1) w1 of
                          Inl e \<Rightarrow> Inl e
                        | Inr w2 \<Rightarrow> upper_loop s d (i + 1) w2)) = Inr w'"
      by (simp add: upper_loop.simps [of s d i w] split: sum.splits)
    from select_preserves [OF "1.prems"(1) a] have c1: "consistent s w1" .
    show ?thesis
    proof (cases "key = 0")
      case True
      with rest c1 show ?thesis by simp
    next
      case False
      with rest obtain w2 where b: "upper_inner i key (ava s) (i + 1) w1 = Inr w2"
        and c: "upper_loop s d (i + 1) w2 = Inr w'"
        by (simp split: sum.splits)
      from upper_inner_preserves [OF c1 "1.prems"(2) b] have "consistent s w2" .
      from "1.IH" [OF True a k False b this "1.prems"(2) c] show ?thesis .
    qed
  qed
qed

lemma upper_preserves:
  "consistent s w \<Longrightarrow> dim s \<le> ava s \<Longrightarrow> upper s w = Inr w' \<Longrightarrow> consistent s w'"
  unfolding upper_def by (rule upper_loop_preserves)

lemma diag_step_preserves:
  assumes "consistent s w" "dim s \<le> ava s" "diag_step s i num j w = Inr w'"
  shows "consistent s w'"
proof -
  from assms(3) have "w' = w \<or> take_row i (case entry w j i of Inr q \<Rightarrow> q | Inl e \<Rightarrow> 0) j num w = Inr w'"
    by (auto simp: diag_step_def ebind_Inr split: if_splits)
  with assms show ?thesis by (auto intro: take_row_consistent)
qed

lemma diag_inner_preserves:
  "consistent s w \<Longrightarrow> dim s \<le> ava s \<Longrightarrow> diag_inner s i num j w = Inr w'
     \<Longrightarrow> consistent s w'"
proof (induction j arbitrary: w)
  case 0
  then show ?case by simp
next
  case (Suc j)
  from Suc.prems(3) obtain w1 where a: "diag_step s i num j w = Inr w1"
    and b: "diag_inner s i num j w1 = Inr w'"
    by (simp split: sum.splits)
  from diag_step_preserves [OF Suc.prems(1,2) a] have "consistent s w1" .
  from Suc.IH [OF this Suc.prems(2) b] show ?case .
qed

lemma diag_loop_preserves:
  "consistent s w \<Longrightarrow> dim s \<le> ava s \<Longrightarrow> diag_loop s i w = Inr w'
     \<Longrightarrow> consistent s w'"
proof (induction i arbitrary: w)
  case 0
  then show ?case by simp
next
  case (Suc i)
  from Suc.prems(3) obtain num where n: "entry w i i = Inr num"
    and rest: "(if num = 0 then diag_loop s i w
          else (case diag_inner s i num (ava s) w of
                  Inl e \<Rightarrow> Inl e
                | Inr w1 \<Rightarrow> diag_loop s i w1)) = Inr w'"
    by (simp split: sum.splits)
  show ?case
  proof (cases "num = 0")
    case True
    with rest Suc.IH [OF Suc.prems(1,2)] show ?thesis by simp
  next
    case False
    with rest obtain w1 where a: "diag_inner s i num (ava s) w = Inr w1"
      and b: "diag_loop s i w1 = Inr w'"
      by (simp split: sum.splits)
    from diag_inner_preserves [OF Suc.prems(1,2) a] have "consistent s w1" .
    from Suc.IH [OF this Suc.prems(2) b] show ?thesis .
  qed
qed

lemma diag_preserves:
  "consistent s w \<Longrightarrow> dim s \<le> ava s \<Longrightarrow> diag s w = Inr w' \<Longrightarrow> consistent s w'"
  unfolding diag_def by (rule diag_loop_preserves)

lemma ingest_row_shape:
  assumes "ingest_row n row = Inr r"
  shows "length r = n + 1 \<and> last r \<noteq> 0"
proof (cases "length row \<le> n")
  case True
  with assms have "r = pad n row @ [1]"
    by (auto simp: ingest_row_def pad_def Let_def split: if_splits)
  with True show ?thesis by (simp add: pad_def)
next
  case False
  with assms have len: "length row = n + 1" and nz: "row ! n \<noteq> 0"
    by (auto simp: ingest_row_def pad_def Let_def split: if_splits)
  from len have p: "pad n row = row" by (simp add: pad_def)
  from len have ne: "row \<noteq> []" by auto
  from len have lst: "last row = row ! n" by (simp add: last_conv_nth ne)
  define f where "f = (if row ! n < 0 then - hcf row else hcf row)"
  from assms len nz have r: "r = (if f > 1 \<or> f < 0 then divide_all f row else row)"
    by (auto simp: ingest_row_def p Let_def f_def split: if_splits)
  show ?thesis
  proof (cases "f > 1 \<or> f < 0")
    case False
    with r len lst nz show ?thesis by simp
  next
    case True
    then have f0: "f \<noteq> 0" by auto
    have "row ! n \<in> set row" using len by simp
    then have "f dvd row ! n" using hcf_dvd [of "row ! n" row] by (simp add: f_def)
    with nz f0 have "row ! n div f \<noteq> 0" by (auto simp: dvd_div_eq_0_iff)
    with True r len lst ne show ?thesis by (simp add: divide_all_def last_map)
  qed
qed

lemma ingest_shape:
  "ingest n rows = Inr p \<Longrightarrow>
     length p = length rows \<and> (\<forall>r \<in> set p. length r = n + 1 \<and> last r \<noteq> 0)"
proof (induction rows arbitrary: p)
  case Nil
  then show ?case by simp
next
  case (Cons row rows)
  from Cons.prems obtain r ans where a: "ingest_row n row = Inr r"
    and b: "ingest n rows = Inr ans" and p: "p = r # ans"
    by (auto split: sum.splits)
  from ingest_row_shape [OF a] Cons.IH [OF b] p show ?case by simp
qed

lemma System_shape:
  assumes "System n rows = Inr s"
  shows "dim s = n \<and> ava s = length rows \<and> length (problem s) = length rows
     \<and> (\<forall>r \<in> set (problem s). length r = n + 1 \<and> last r \<noteq> 0)"
proof -
  from assms obtain p where p: "ingest n rows = Inr p"
    and s: "s = \<lparr>dim = n, ava = length rows, problem = p\<rparr>"
    by (auto simp: System_def split: sum.splits)
  from ingest_shape [OF p] s show ?thesis by simp
qed

lemma map_e_last: "\<forall>r \<in> set p. r \<noteq> [] \<Longrightarrow> map_e last_e p = Inr (map last p)"
  by (induction p) (simp_all add: last_e_def)

lemma sum_zip_zeros:
  fixes g :: "int list \<Rightarrow> rat"
  shows "sum_list (map (\<lambda>(c, r). of_int c * g r) (zip (replicate m 0) p)) = 0"
proof (induction p arbitrary: m)
  case Nil
  show ?case by simp
next
  case (Cons a p)
  show ?case by (cases m) (simp_all add: Cons.IH)
qed

lemma sum_zip_unit:
  fixes g :: "int list \<Rightarrow> rat"
  shows "k < length p \<Longrightarrow>
    sum_list (map (\<lambda>(c, r). of_int c * g r) (zip ((replicate (length p) 0)[k := d]) p))
    = of_int d * g (p ! k)"
proof (induction p arbitrary: k)
  case Nil
  then show ?case by simp
next
  case (Cons a p)
  show ?case
  proof (cases k)
    case 0
    then show ?thesis by (simp add: sum_zip_zeros)
  next
    case (Suc k')
    with Cons.prems have "k' < length p" by simp
    from Cons.IH [OF this] Suc show ?thesis by simp
  qed
qed

lemma setup_consistent:
  assumes wf: "\<forall>r \<in> set (problem s). length r = dim s + 1 \<and> last r \<noteq> 0"
    and av: "ava s = length (problem s)"
  shows "\<exists>w. setup_work s = Inr w \<and> consistent s w"
proof -
  define p where "p = problem s"
  define w where "w = \<lparr>matrix = map butlast p, result = scaling (map last p), column = [0..<dim s]\<rparr>"
  from wf have "\<forall>r \<in> set p. r \<noteq> []" by (auto simp: p_def)
  then have sw: "setup_work s = Inr w"
    by (simp add: setup_work_def ebind_def map_e_last p_def [symmetric] w_def)
  have "times_problem (scaling (map last p)) s = as_rat (map butlast p)"
  proof (rule nth_equalityI)
    show "length (times_problem (scaling (map last p)) s) = length (as_rat (map butlast p))"
      by (simp add: times_problem_def as_rat_def scaling_def)
  next
    fix k assume "k < length (times_problem (scaling (map last p)) s)"
    then have k: "k < length p" by (simp add: times_problem_def scaling_def)
    then have pk: "p ! k \<in> set p" by simp
    with wf have lk: "length (p ! k) = dim s + 1" and nz: "last (p ! k) \<noteq> 0"
      by (simp_all add: p_def)
    have "apply_row ((replicate (length p) 0)[k := last (p ! k)]) p (dim s)
        = map of_int (butlast (p ! k))"
    proof (rule nth_equalityI)
      show "length (apply_row ((replicate (length p) 0)[k := last (p ! k)]) p (dim s))
          = length (map rat_of_int (butlast (p ! k)))"
        by (simp add: lk)
    next
      fix j assume "j < length (apply_row ((replicate (length p) 0)[k := last (p ! k)]) p (dim s))"
      then have j: "j < dim s" by simp
      with lk have "butlast (p ! k) ! j = p ! k ! j" by (simp add: nth_butlast)
      with j k nz lk
        sum_zip_unit [OF k, where g = "\<lambda>r. of_int (r ! j) / of_int (last r)" and d = "last (p ! k)"]
      show "apply_row ((replicate (length p) 0)[k := last (p ! k)]) p (dim s) ! j
          = map rat_of_int (butlast (p ! k)) ! j"
        by (simp add: nth_apply_row_div)
    qed
    with k show "times_problem (scaling (map last p)) s ! k = as_rat (map butlast p) ! k"
      by (simp add: times_problem_def as_rat_def scaling_def p_def [symmetric])
  qed
  then have "invariant s w" by (simp add: invariant_def w_def)
  moreover have "shaped s w"
    by (auto simp: shaped_def w_def scaling_def av p_def)
  ultimately show ?thesis using sw by (auto simp: consistent_def)
qed

lemma map_delete_at: "map f (delete_at i xs) = delete_at i (map f xs)"
  by (simp add: delete_at_def take_map drop_map)

lemma zero_row: "\<not> any_nz a \<Longrightarrow> map rat_of_int a = replicate (length a) 0"
  by (induction a) (auto simp: any_nz_def)

lemma nth_e_Inr: "nth_e xs i = Inr x \<longleftrightarrow> i < length xs \<and> x = xs ! i"
  by (auto simp: nth_e_def)

lemma purge_sound:
  assumes "times_problem recip s = as_rat avail"
    and "\<forall>d \<in> set degen. apply_row d (problem s) (dim s) = replicate (dim s) 0"
    and "purge i avail recip degen = Inr (av, re, ker)"
  shows "times_problem re s = as_rat av
     \<and> (\<forall>d \<in> set ker. apply_row d (problem s) (dim s) = replicate (dim s) 0)"
  using assms
proof (induction i arbitrary: avail recip degen)
  case 0
  then show ?case by simp
next
  case (Suc i)
  from Suc.prems(3) have ia: "i < length avail" and ir: "i < length recip"
    by (auto simp: nth_e_def split: if_splits)
  show ?case
  proof (cases "any_nz (avail ! i)")
    case True
    with Suc.prems(3) ia ir have "purge i avail recip degen = Inr (av, re, ker)"
      by (simp add: nth_e_def split: if_splits)
    from Suc.IH [OF Suc.prems(1,2) this] show ?thesis .
  next
    case False
    define degen' where "degen' = (if any_nz (recip ! i) then degen @ [recip ! i] else degen)"
    from False Suc.prems(3) ia ir
    have p: "purge i (delete_at i avail) (delete_at i recip) degen' = Inr (av, re, ker)"
      by (simp add: nth_e_def degen'_def)
    from Suc.prems(1)
    have a: "times_problem (delete_at i recip) s = as_rat (delete_at i avail)"
      by (simp add: times_problem_def as_rat_def map_delete_at)
    from Suc.prems(1) have "times_problem recip s ! i = as_rat avail ! i" by simp
    with ia ir have "apply_row (recip ! i) (problem s) (dim s) = map of_int (avail ! i)"
      by (simp add: times_problem_def as_rat_def)
    with zero_row [OF False]
    have z: "apply_row (recip ! i) (problem s) (dim s) = replicate (length (avail ! i)) 0"
      by simp
    from arg_cong [OF z, of length] have "length (avail ! i) = dim s" by simp
    with z Suc.prems(2)
    have b: "\<forall>d \<in> set degen'. apply_row d (problem s) (dim s) = replicate (dim s) 0"
      by (simp add: degen'_def)
    from Suc.IH [OF a b p] show ?thesis .
  qed
qed

lemma map_e_length: "map_e f xs = Inr ys \<Longrightarrow> length ys = length xs"
  by (induction xs arbitrary: ys) (auto split: sum.splits)

lemma set_order: "set (order xs) = {0..<length xs}"
  by (simp add: order_def)

lemma map_permute: "\<forall>i \<in> set perm. i < length xs \<Longrightarrow> map f (permute xs perm) = permute (map f xs) perm"
  by (simp add: permute_def)

lemma tidy_sound:
  assumes "invariant s w" "tidy w = Inr (av, re, ker)"
  shows "times_problem re s = as_rat av
     \<and> (\<forall>d \<in> set ker. apply_row d (problem s) (dim s) = replicate (dim s) 0)"
proof -
  from assms(2) obtain avail recip indent where
    pg: "purge (length (matrix w)) (matrix w) (result w) [] = Inr (avail, recip, ker)"
    and ind: "map_e indent_of avail = Inr indent"
    and av: "av = permute avail (order indent)" and re: "re = permute recip (order indent)"
    by (auto simp: tidy_def ebind_Inr Let_def split: if_splits)
  from assms(1) have "times_problem (result w) s = as_rat (matrix w)"
    by (simp add: invariant_def)
  from purge_sound [OF this _ pg]
  have eq: "times_problem recip s = as_rat avail"
    and k: "\<forall>d \<in> set ker. apply_row d (problem s) (dim s) = replicate (dim s) 0"
    by simp_all
  from eq have len: "length recip = length avail"
    unfolding times_problem_def as_rat_def by (rule map_eq_imp_length_eq)
  from map_e_length [OF ind] have "set (order indent) = {0..<length avail}"
    by (simp add: set_order)
  then have b: "\<forall>i \<in> set (order indent). i < length avail"
    "\<forall>i \<in> set (order indent). i < length recip"
    by (simp_all add: len)
  have "times_problem re s = permute (times_problem recip s) (order indent)"
    unfolding re times_problem_def by (rule map_permute [OF b(2)])
  also have "\<dots> = as_rat av"
    unfolding av eq as_rat_def by (rule map_permute [OF b(1), symmetric])
  finally show ?thesis using k by simp
qed

lemma solution_sound:
  assumes "System n rows = Inr s" "n \<le> length rows" "solution s = Inr (av, re, ker)"
  shows "times_problem re s = as_rat av
     \<and> (\<forall>d \<in> set ker. apply_row d (problem s) (dim s) = replicate (dim s) 0)"
proof -
  from System_shape [OF assms(1)]
  have d: "dim s = n" and a: "ava s = length rows" and l: "length (problem s) = length rows"
    and wf: "\<forall>r \<in> set (problem s). length r = n + 1 \<and> last r \<noteq> 0"
    by simp_all
  from d a assms(2) have le: "dim s \<le> ava s" by simp
  from setup_consistent [of s] wf d a l obtain w0 where
    s0: "setup_work s = Inr w0" and c0: "consistent s w0" by auto
  from assms(3) s0 obtain w1 w2 where u: "upper s w0 = Inr w1" and g: "diag s w1 = Inr w2"
    and t: "tidy w2 = Inr (av, re, ker)"
    by (auto simp: solution_def ebind_Inr)
  from upper_preserves [OF c0 le u] have "consistent s w1" .
  from diag_preserves [OF this le g] have "consistent s w2" .
  then have "invariant s w2" by (simp add: consistent_def)
  from tidy_sound [OF this t] show ?thesis .
qed

lemma solution_sound_square_instance:
  "System 2 [[2, 0], [0, 2]] = Inr \<lparr>dim = 2, ava = 2, problem = [[2, 0, 1], [0, 2, 1]]\<rparr>
   \<and> solution \<lparr>dim = 2, ava = 2, problem = [[2, 0, 1], [0, 2, 1]]\<rparr>
       = Inr ([[2, 0], [0, 2]], [[1, 0], [0, 1]], [])
   \<and> times_problem [[1, 0], [0, 1]] \<lparr>dim = 2, ava = 2, problem = [[2, 0, 1], [0, 2, 1]]\<rparr>
       = as_rat [[2, 0], [0, 2]]"
proof -
  have a: "System 2 [[2, 0], [0, 2]] = Inr \<lparr>dim = 2, ava = 2, problem = [[2, 0, 1], [0, 2, 1]]\<rparr>"
    by code_simp
  have b: "solution \<lparr>dim = 2, ava = 2, problem = [[2, 0, 1], [0, 2, 1]]\<rparr>
       = Inr ([[2, 0], [0, 2]], [[1, 0], [0, 1]], [])"
    by code_simp
  from solution_sound [OF a _ b] a b show ?thesis by simp
qed

subsection \<open>The row operation of the elimination on a non-square system\<close>

text \<open>
  \<open>__take\<close> ends by dividing the combined row by its common factor \<open>f\<close>.  That loop counts
  \<open>k\<close> down from the length of the \<^emph>\<open>result\<close> row (the number of available vectors) and uses
  the same \<open>k\<close> for the matrix row (whose length is the dimension).  With fewer available
  vectors than dimensions the trailing matrix entries keep the factor \<open>f\<close>; with more, the
  subscript runs off the matrix row.  The statements of this subsection evaluate the
  reduction at inputs where that happens.
\<close>

text \<open>
  Claim C4 (working invariant).  For \<open>System(3, [(2,0,0), (2,0,4)])\<close> the equation
  \<open>WorkingResult \<cdot> Problem = WorkingMatrix\<close> holds after setup, and the first row operation
  of the triangularization, \<open>__take(0, 2, 1, 2)\<close>, leaves a state in which it does not:
  the result row \<open>(-1, 1)\<close> stands for \<open>(0, 0, 4)\<close> while the matrix row is \<open>(0, 0, 8)\<close>.
  This is the state that \<open>__upper\<close> returns (up to the column permutation).
\<close>

theorem take_breaks_working_invariant:
  "setup_work \<lparr>dim = 3, ava = 2, problem = [[2, 0, 0, 1], [2, 0, 4, 1]]\<rparr>
     = Inr \<lparr>matrix = [[2, 0, 0], [2, 0, 4]], result = [[1, 0], [0, 1]], column = [0, 1, 2]\<rparr>
   \<and> invariant \<lparr>dim = 3, ava = 2, problem = [[2, 0, 0, 1], [2, 0, 4, 1]]\<rparr>
       \<lparr>matrix = [[2, 0, 0], [2, 0, 4]], result = [[1, 0], [0, 1]], column = [0, 1, 2]\<rparr>
   \<and> take_row 0 2 1 2 \<lparr>matrix = [[2, 0, 0], [2, 0, 4]], result = [[1, 0], [0, 1]], column = [0, 1, 2]\<rparr>
     = Inr \<lparr>matrix = [[2, 0, 0], [0, 0, 8]], result = [[1, 0], [- 1, 1]], column = [0, 1, 2]\<rparr>
   \<and> \<not> invariant \<lparr>dim = 3, ava = 2, problem = [[2, 0, 0, 1], [2, 0, 4, 1]]\<rparr>
       \<lparr>matrix = [[2, 0, 0], [0, 0, 8]], result = [[1, 0], [- 1, 1]], column = [0, 1, 2]\<rparr>
   \<and> upper \<lparr>dim = 3, ava = 2, problem = [[2, 0, 0, 1], [2, 0, 4, 1]]\<rparr>
         \<lparr>matrix = [[2, 0, 0], [2, 0, 4]], result = [[1, 0], [0, 1]], column = [0, 1, 2]\<rparr>
     = Inr \<lparr>matrix = [[2, 0, 0], [0, 0, 8]], result = [[1, 0], [- 1, 1]], column = [0, 2, 1]\<rparr>
   \<and> times_problem [[1, 0], [- 1, 1]] \<lparr>dim = 3, ava = 2, problem = [[2, 0, 0, 1], [2, 0, 4, 1]]\<rparr>
     = [[2, 0, 0], [0, 0, 4]]"
  by code_simp

text \<open>
  Claim C1 (round trip).  \<open>System(3, [(2,0,0), (2,0,4)])\<close> is constructed without error and
  its solution has \<open>available = ((2,0,0), (0,0,8))\<close> and \<open>recipe = ((1,0), (-1,1))\<close>, but
  \<open>recipe \<cdot> problem = ((2,0,0), (0,0,4))\<close>: the last entry of the second row differs.
  \<open>System(1, [(2), (4)])\<close> is constructed without error too, and computing its solution
  raises \<open>IndexError\<close>, so that it has no recipe at all.
\<close>

theorem recipe_times_problem_differs:
  "System 3 [[2, 0, 0], [2, 0, 4]]
     = Inr \<lparr>dim = 3, ava = 2, problem = [[2, 0, 0, 1], [2, 0, 4, 1]]\<rparr>
   \<and> solution \<lparr>dim = 3, ava = 2, problem = [[2, 0, 0, 1], [2, 0, 4, 1]]\<rparr>
     = Inr ([[2, 0, 0], [0, 0, 8]], [[1, 0], [- 1, 1]], [])
   \<and> times_problem [[1, 0], [- 1, 1]] \<lparr>dim = 3, ava = 2, problem = [[2, 0, 0, 1], [2, 0, 4, 1]]\<rparr>
     = [[2, 0, 0], [0, 0, 4]]
   \<and> times_problem [[1, 0], [- 1, 1]] \<lparr>dim = 3, ava = 2, problem = [[2, 0, 0, 1], [2, 0, 4, 1]]\<rparr>
     \<noteq> as_rat [[2, 0, 0], [0, 0, 8]]
   \<and> System 1 [[2], [4]] = Inr \<lparr>dim = 1, ava = 2, problem = [[2, 1], [4, 1]]\<rparr>
   \<and> solution \<lparr>dim = 1, ava = 2, problem = [[2, 1], [4, 1]]\<rparr> = Inl IndexError"
  by code_simp

text \<open>
  Claim C2 (kernel validity).  \<open>System(4, [(2,0,0,0), (2,0,0,4), (0,0,0,8)])\<close> has the
  kernel row \<open>(1, -1, 1)\<close>, and \<open>(1, -1, 1) \<cdot> problem = (0, 0, 0, 4)\<close>, which is not the
  zero vector.
\<close>

theorem kernel_row_not_a_dependency:
  "System 4 [[2, 0, 0, 0], [2, 0, 0, 4], [0, 0, 0, 8]]
     = Inr \<lparr>dim = 4, ava = 3, problem = [[2, 0, 0, 0, 1], [2, 0, 0, 4, 1], [0, 0, 0, 8, 1]]\<rparr>
   \<and> kernel \<lparr>dim = 4, ava = 3, problem = [[2, 0, 0, 0, 1], [2, 0, 0, 4, 1], [0, 0, 0, 8, 1]]\<rparr>
     = Inr [[1, - 1, 1]]
   \<and> times_problem [[1, - 1, 1]]
        \<lparr>dim = 4, ava = 3, problem = [[2, 0, 0, 0, 1], [2, 0, 0, 4, 1], [0, 0, 0, 8, 1]]\<rparr>
     = [[0, 0, 0, 4]]"
  by code_simp

text \<open>
  Claim C3 (inverse correctness).  For \<open>System(3, [(2,0,0), (2,0,4)])\<close> the access to
  \<open>inverse\<close> succeeds with \<open>((1,0,2), (0,0,0), (-1,1,8))\<close>.  The numerators \<open>(-1, 1)\<close> of
  its row 2 times column 2 of the problem give 4, and the denominator of that row is 8.
\<close>

theorem inverse_row_off_by_factor:
  "inverse_of \<lparr>dim = 3, ava = 2, problem = [[2, 0, 0, 1], [2, 0, 4, 1]]\<rparr>
     = Inr [[1, 0, 2], [0, 0, 0], [- 1, 1, 8]]
   \<and> times_problem (map butlast [[1, 0, 2], [0, 0, 0], [- 1, 1, 8]])
        \<lparr>dim = 3, ava = 2, problem = [[2, 0, 0, 1], [2, 0, 4, 1]]\<rparr>
     = [[2, 0, 0], [0, 0, 0], [0, 0, 4]]
   \<and> map last [[1, 0, 2], [0, 0, 0], [- 1, 1, 8 :: int]] = [2, 0, 8]"
  by code_simp

text \<open>
  Claim C7 (irreducible composites).  For \<open>System(3, [(2,2,0), (2,4,4)])\<close> both available
  rows are tangled and the access to \<open>inverse\<close> raises with the indices \<open>[1, 2]\<close>, while the
  solution stays what it was; but that solution has \<open>available = ((2,0,-16), (0,2,8))\<close>
  against \<open>recipe \<cdot> problem = ((2,0,-4), (0,2,4))\<close>.
\<close>

theorem composite_solution_not_round_trip:
  "System 3 [[2, 2, 0], [2, 4, 4]]
     = Inr \<lparr>dim = 3, ava = 2, problem = [[2, 2, 0, 1], [2, 4, 4, 1]]\<rparr>
   \<and> inverse_of \<lparr>dim = 3, ava = 2, problem = [[2, 2, 0, 1], [2, 4, 4, 1]]\<rparr>
     = Inl (IrreducibleComposites [1, 2])
   \<and> solution \<lparr>dim = 3, ava = 2, problem = [[2, 2, 0, 1], [2, 4, 4, 1]]\<rparr>
     = Inr ([[2, 0, - 16], [0, 2, 8]], [[2, - 1], [- 1, 1]], [])
   \<and> times_problem [[2, - 1], [- 1, 1]] \<lparr>dim = 3, ava = 2, problem = [[2, 2, 0, 1], [2, 4, 4, 1]]\<rparr>
     = [[2, 0, - 4], [0, 2, 4]]"
  by code_simp

subsection \<open>\<open>obtain\<close> against \<open>contract\<close>\<close>

text \<open>
  Claim C5 (\<open>obtain\<close> mirrors \<open>contract\<close>).  \<open>__obtain\<close> lets the column index run over the
  whole length of an inverse row, denominator included, so that its answer has one entry
  more than \<open>contract\<close> accepts.  For \<open>System(2, [(1,0), (0,1)])\<close> the row \<open>(1, 0)\<close> is the
  first available vector, \<open>contract((1, 0))\<close> gives it back as \<open>(1, 0, 1)\<close>, and
  \<open>obtain((1, 0))\<close> returns \<open>(1, 0, 1, 1)\<close>, which \<open>contract\<close> rejects.
\<close>

theorem obtain_answer_rejected_by_contract:
  "inverse_of \<lparr>dim = 2, ava = 2, problem = [[1, 0, 1], [0, 1, 1]]\<rparr> = Inr [[1, 0, 1], [0, 1, 1]]
   \<and> contract \<lparr>dim = 2, ava = 2, problem = [[1, 0, 1], [0, 1, 1]]\<rparr> [1, 0] = Inr [1, 0, 1]
   \<and> obtain_scaled \<lparr>dim = 2, ava = 2, problem = [[1, 0, 1], [0, 1, 1]]\<rparr> [1, 0] 1
     = Inr [1, 0, 1, 1]
   \<and> contract \<lparr>dim = 2, ava = 2, problem = [[1, 0, 1], [0, 1, 1]]\<rparr> [1, 0, 1, 1]
     = Inl (TooManyEntries [1, 0, 1, 1] 2)"
  by code_simp

subsection \<open>The rows of the inverse\<close>

text \<open>
  Claim C6 (one inverse row per basis index).  The loop of \<open>_lazy_get_inverse_\<close> ends as soon
  as the available rows are used up, so basis indices after the last matched one get no
  row at all.  For \<open>System(2, [(1,0), (2,0)])\<close> the solution is \<open>available = ((1,0))\<close>,
  \<open>recipe = ((1,0))\<close>, \<open>kernel = ((-2,1))\<close>, and the inverse is the single row \<open>(1,0,1)\<close>: index
  1 has neither the unused kernel row nor a zero row.
\<close>

theorem inverse_misses_trailing_index:
  "System 2 [[1, 0], [2, 0]] = Inr \<lparr>dim = 2, ava = 2, problem = [[1, 0, 1], [2, 0, 1]]\<rparr>
   \<and> solution \<lparr>dim = 2, ava = 2, problem = [[1, 0, 1], [2, 0, 1]]\<rparr>
     = Inr ([[1, 0]], [[1, 0]], [[- 2, 1]])
   \<and> inverse_of \<lparr>dim = 2, ava = 2, problem = [[1, 0, 1], [2, 0, 1]]\<rparr> = Inr [[1, 0, 1]]
   \<and> length [[1, 0, 1 :: int]] \<noteq> dim \<lparr>dim = 2, ava = 2, problem = [[1, 0, 1], [2, 0, 1]]\<rparr>"
  by code_simp

subsection \<open>The identity system\<close>

text \<open>
  Claim C8, as stated: \<open>System(2, [(1,0), (0,1)])\<close> has \<open>available = ((1,0,1), (0,1,1))\<close> and
  \<open>recipe = ((1,0,1), (0,1,1))\<close>.  It does not: the rows of \<open>available\<close> and \<open>recipe\<close> are
  plain integer rows.
\<close>

theorem identity_system_counterexample:
  "\<not> (available \<lparr>dim = 2, ava = 2, problem = [[1, 0, 1], [0, 1, 1]]\<rparr> = Inr [[1, 0, 1], [0, 1, 1]]
      \<and> recipe \<lparr>dim = 2, ava = 2, problem = [[1, 0, 1], [0, 1, 1]]\<rparr> = Inr [[1, 0, 1], [0, 1, 1]]
      \<and> kernel \<lparr>dim = 2, ava = 2, problem = [[1, 0, 1], [0, 1, 1]]\<rparr> = Inr []
      \<and> inverse_of \<lparr>dim = 2, ava = 2, problem = [[1, 0, 1], [0, 1, 1]]\<rparr>
          = Inr [[1, 0, 1], [0, 1, 1]])"
  by code_simp

text \<open>
  Claim C8, amended.  \<open>System(2, [(1,0), (0,1)])\<close> has \<open>problem = ((1,0,1), (0,1,1))\<close>,
  \<open>available = ((1,0), (0,1))\<close>, \<open>recipe = ((1,0), (0,1))\<close>, \<open>kernel = ()\<close> and
  \<open>inverse = ((1,0,1), (0,1,1))\<close>: the rows of \<open>problem\<close> and \<open>inverse\<close> end with their
  denominator, those of \<open>available\<close> and \<open>recipe\<close> have no extra entry.
\<close>

theorem identity_system_results:
  "System 2 [[1, 0], [0, 1]] = Inr \<lparr>dim = 2, ava = 2, problem = [[1, 0, 1], [0, 1, 1]]\<rparr>
   \<and> available \<lparr>dim = 2, ava = 2, problem = [[1, 0, 1], [0, 1, 1]]\<rparr> = Inr [[1, 0], [0, 1]]
   \<and> recipe \<lparr>dim = 2, ava = 2, problem = [[1, 0, 1], [0, 1, 1]]\<rparr> = Inr [[1, 0], [0, 1]]
   \<and> kernel \<lparr>dim = 2, ava = 2, problem = [[1, 0, 1], [0, 1, 1]]\<rparr> = Inr []
   \<and> inverse_of \<lparr>dim = 2, ava = 2, problem = [[1, 0, 1], [0, 1, 1]]\<rparr>
       = Inr [[1, 0, 1], [0, 1, 1]]"
  by code_simp

end
